theory Spec2Isabelle
  imports Main "HOL-Library.AList" "HOL-Library.Char_ord" "HOL-Library.List_Lexorder"
    "HOL-Library.Sublist"
begin

section \<open>Library functions used by the multiplexer\<close>

text \<open>
  Go strings are byte sequences, as is \<^typ>\<open>string\<close>. The functions of this section are
  those of Go's \<open>strings\<close>, \<open>sort\<close> and \<open>net/url\<close> packages that
  \<open>trie_serve_mux.go\<close> calls, with the behaviour their documentation gives.
\<close>

text \<open>\<open>strings.Split(s, sep)\<close> for a separator of one byte: never empty.\<close>

fun Split :: "string \<Rightarrow> char \<Rightarrow> string list" where
  "Split [] c = [[]]"
| "Split (x # xs) c =
     (if x = c then [] # Split xs c
      else (case Split xs c of [] \<Rightarrow> [[x]] | y # ys \<Rightarrow> (x # y) # ys))"

text \<open>\<open>strings.Join(elems, sep)\<close>.\<close>

fun Join :: "string list \<Rightarrow> string \<Rightarrow> string" where
  "Join [] sep = []"
| "Join [x] sep = x"
| "Join (x # y # ys) sep = x @ sep @ Join (y # ys) sep"

definition HasPrefix :: "string \<Rightarrow> string \<Rightarrow> bool" where
  "HasPrefix s p = (length p \<le> length s \<and> take (length p) s = p)"

definition HasSuffix :: "string \<Rightarrow> string \<Rightarrow> bool" where
  "HasSuffix s p = (length p \<le> length s \<and> drop (length s - length p) s = p)"

text \<open>\<open>strings.Trim(s, cutset)\<close>: all leading and trailing bytes of the cutset removed.\<close>

definition Trim :: "string \<Rightarrow> string \<Rightarrow> string" where
  "Trim s cutset =
     dropWhile (\<lambda>c. c \<in> set cutset) (rev (dropWhile (\<lambda>c. c \<in> set cutset) (rev s)))"

text \<open>
  \<open>url.Values\<close> is a \<open>map[string][]string\<close>; the value \<open>nil\<close> of that type is
  \<open>None\<close> where the code tests for it. Maps are association lists with distinct keys,
  read with \<^const>\<open>map_of\<close> and written with \<^const>\<open>AList.update\<close>; Go does not
  fix the order of iteration, and the code sorts wherever it iterates.
\<close>

type_synonym Values = "(string \<times> string list) list"

definition Values_Set :: "Values \<Rightarrow> string \<Rightarrow> string \<Rightarrow> Values" where
  "Values_Set v k x = AList.update k [x] v"

definition hexdigit :: "nat \<Rightarrow> char" where
  "hexdigit n = ''0123456789ABCDEF'' ! (n mod 16)"

definition unreserved :: "char \<Rightarrow> bool" where
  "unreserved c = (c \<in> set ''abcdefghijklmnopqrstuvwxyzABCDEFGHIJKLMNOPQRSTUVWXYZ0123456789-_.~'')"

text \<open>\<open>url.QueryEscape\<close>.\<close>

fun QueryEscape :: "string \<Rightarrow> string" where
  "QueryEscape [] = []"
| "QueryEscape (c # cs) =
     (if unreserved c then [c]
      else if c = CHR '' '' then ''+''
      else [CHR ''%'', hexdigit (of_char c div 16), hexdigit (of_char c mod 16)])
     @ QueryEscape cs"

text \<open>\<open>Values.Encode\<close>: keys sorted, one \<open>key=value\<close> per value, joined by \<open>&\<close>.\<close>

definition Values_Encode :: "Values \<Rightarrow> string" where
  "Values_Encode v =
     Join (concat (map (\<lambda>k. map (\<lambda>x. QueryEscape k @ ''='' @ QueryEscape x)
                                (case map_of v k of None \<Rightarrow> [] | Some xs \<Rightarrow> xs))
                       (sort (map fst v)))) ''&''"

definition Encode :: "Values option \<Rightarrow> string" where
  "Encode params = (case params of None \<Rightarrow> [] | Some v \<Rightarrow> Values_Encode v)"

text \<open>
  The first step of \<open>url.ParseQuery\<close>: the raw query cut at every \<open>&\<close>, empty pieces
  skipped, each piece cut at its first \<open>=\<close>. (Unescaping, which follows, works on each
  key and value alone.)
\<close>

fun cut_eq :: "string \<Rightarrow> string \<times> string" where
  "cut_eq [] = ([], [])"
| "cut_eq (c # cs) =
     (if c = CHR ''='' then ([], cs) else (case cut_eq cs of (k, v) \<Rightarrow> (c # k, v)))"

definition query_pairs :: "string \<Rightarrow> (string \<times> string) list" where
  "query_pairs q = map cut_eq (filter (\<lambda>s. s \<noteq> []) (Split q CHR ''&''))"

section \<open>The trie\<close>

text \<open>
  \<open>type TrieServeMux struct { methods; param; paths; pattern }\<close>. The two maps are
  association lists; \<open>NewTrieServeMux\<close> is the only constructor, so neither map is nil.
  Handlers registered by the caller are values of the type parameter \<open>'h\<close>. Calls of
  \<open>log.Printf\<close> are left out.
\<close>

datatype 'h TrieServeMux = TrieServeMux
  (methods: "(string \<times> 'h) list")
  (param: "string option")
  (paths: "(string \<times> 'h TrieServeMux) list")
  (pattern: string)

definition NewTrieServeMux :: "'h TrieServeMux" where
  "NewTrieServeMux = TrieServeMux [] None [] []"

text \<open>
  \<open>add\<close>: the receiver is returned updated. \<open>mux.param = &paths[0]\<close> keeps the
  text of the segment.
\<close>

fun add :: "string \<Rightarrow> string list \<Rightarrow> 'h \<Rightarrow> string \<Rightarrow> 'h TrieServeMux \<Rightarrow> 'h TrieServeMux" where
  "add method [] handler pat mux =
     TrieServeMux (AList.update method handler (methods mux)) (param mux) (paths mux) pat"
| "add method (p # ps) handler pat mux =
     TrieServeMux (methods mux)
       (if HasPrefix p ''{'' \<and> HasSuffix p ''}'' then Some p else param mux)
       (AList.update p
          (add method ps handler pat
             (case map_of (paths mux) p of None \<Rightarrow> NewTrieServeMux | Some c \<Rightarrow> c))
          (paths mux))
       (pattern mux)"

definition Handle :: "string \<Rightarrow> string \<Rightarrow> 'h \<Rightarrow> 'h TrieServeMux \<Rightarrow> 'h TrieServeMux" where
  "Handle method pat handler mux = add method (tl (Split pat CHR ''/'')) handler pat mux"

definition HandleNamespace :: "string \<Rightarrow> 'h \<Rightarrow> 'h TrieServeMux \<Rightarrow> 'h TrieServeMux" where
  "HandleNamespace namespace handler mux =
     add [] (tl (Split namespace CHR ''/'')) handler namespace mux"

section \<open>Requests and lookup\<close>

record request =
  Method :: string
  Path :: string
  RawQuery :: string
  Header :: "(string \<times> string list) list"

text \<open>
  What \<open>find\<close> can return as its \<open>http.Handler\<close>: a handler found in a method map,
  the responder for a node without the method, or the result of \<open>NotFoundHandler()\<close>,
  which \<open>trie_serve_mux.go\<close> does not declare.
\<close>

datatype 'h handler =
  Registered 'h
| methodNotAllowedHandler "'h TrieServeMux"
| NotFoundHandler

text \<open>
  A node whose \<open>param\<close> names no entry of \<open>paths\<close> makes \<open>find\<close> call itself on a
  nil pointer, whose first field access panics.
\<close>

datatype error = NilPointerDereference

definition set_params :: "string \<Rightarrow> string \<Rightarrow> Values option \<Rightarrow> Values" where
  "set_params w p params =
     Values_Set (Values_Set (case params of None \<Rightarrow> [] | Some v \<Rightarrow> v) w p) (Trim w ''{}'') p"

text \<open>
  \<open>find\<close>, here \<open>find_mux\<close> since lists have a \<open>find\<close> already. It returns its three
  results and the request, whose path it rewrites when it falls back on a namespace.
\<close>

fun find_mux :: "'h TrieServeMux \<Rightarrow> request \<Rightarrow> string list
    \<Rightarrow> error + ((Values option \<times> 'h handler \<times> string) \<times> request)" where
  "find_mux mux r [] =
     (case map_of (methods mux) (Method r) of
        Some h \<Rightarrow> Inr ((None, Registered h, pattern mux), r)
      | None \<Rightarrow> Inr ((None, methodNotAllowedHandler mux, []), r))"
| "find_mux mux r (p # ps) =
     (case map_of (paths mux) p of
        Some c \<Rightarrow> find_mux c r ps
      | None \<Rightarrow>
         (case param mux of
            Some w \<Rightarrow>
              (case map_of (paths mux) w of
                 None \<Rightarrow> Inl NilPointerDereference
               | Some c \<Rightarrow>
                  (case find_mux c r ps of
                     Inl e \<Rightarrow> Inl e
                   | Inr ((params, h, pat), r') \<Rightarrow> Inr ((Some (set_params w p params), h, pat), r')))
          | None \<Rightarrow>
              (case map_of (methods mux) [] of
                 Some h \<Rightarrow> Inr ((None, Registered h, pattern mux), r\<lparr>Path := ''/'' @ Join (p # ps) ''/''\<rparr>)
               | None \<Rightarrow> Inr ((None, NotFoundHandler, []), r))))"

definition Handler :: "'h TrieServeMux \<Rightarrow> request \<Rightarrow> error + (('h handler \<times> string) \<times> request)" where
  "Handler mux r =
     (case find_mux mux r (tl (Split (Path r) CHR ''/'')) of
        Inl e \<Rightarrow> Inl e
      | Inr ((params, h, pat), r') \<Rightarrow>
          Inr ((h, pat), r'\<lparr>RawQuery := RawQuery r' @ ''&'' @ Encode params\<rparr>))"

section \<open>The responder for a method that is not registered\<close>

text \<open>
  What \<open>methodNotAllowedHandler.ServeHTTP\<close> uses and \<open>trie_serve_mux.go\<close> does not declare:
  the six CORS header names, \<open>acceptJSON\<close>, the flag \<open>SnakeCaseHTTPEquivErrors\<close>, and
  \<open>CORSHandler\<close> with its two queries. They are parameters; \<open>asCORSHandler\<close> is the
  type assertion \<open>.(*CORSHandler)\<close>. Header names are taken in canonical form. What
  a registered handler and the not-found handler write is a parameter as well.
\<close>

datatype body =
  Text string
| JSON_allow "string list"
| JSON_error (description: string) (error_code: string)

record response =
  ResponseHeader :: "(string \<times> string list) list"
  StatusCode :: "nat option"
  Body :: "body list"

record ('h, 'c) env =
  acceptJSON :: "request \<Rightarrow> bool"
  SnakeCaseHTTPEquivErrors :: bool
  CORSRequestOrigin :: string
  CORSRequestMethod :: string
  CORSRequestHeaders :: string
  CORSAllowOrigin :: string
  CORSAllowMethods :: string
  CORSAllowHeaders :: string
  asCORSHandler :: "'h \<Rightarrow> 'c option"
  getAllowedOrigin :: "'c \<Rightarrow> string \<Rightarrow> string"
  getAllowedHeaders :: "'c \<Rightarrow> string"
  handler_ServeHTTP :: "'h \<Rightarrow> response \<Rightarrow> request \<Rightarrow> response"
  NotFoundHandler_ServeHTTP :: "response \<Rightarrow> request \<Rightarrow> response"

definition Header_Get :: "(string \<times> string list) list \<Rightarrow> string \<Rightarrow> string" where
  "Header_Get h k = (case map_of h k of Some (v # vs) \<Rightarrow> v | _ \<Rightarrow> [])"

definition Header_Set :: "response \<Rightarrow> string \<Rightarrow> string \<Rightarrow> response" where
  "Header_Set w k v = w\<lparr>ResponseHeader := AList.update k [v] (ResponseHeader w)\<rparr>"

definition WriteHeader :: "response \<Rightarrow> nat \<Rightarrow> response" where
  "WriteHeader w code = w\<lparr>StatusCode := Some code\<rparr>"

definition Write :: "response \<Rightarrow> body \<Rightarrow> response" where
  "Write w b = w\<lparr>Body := Body w @ [b]\<rparr>"

text \<open>The list \<open>methods\<close> of \<open>ServeHTTP\<close> after \<open>sort.Strings\<close>.\<close>

definition allowed_methods :: "'h TrieServeMux \<Rightarrow> string list" where
  "allowed_methods mux =
     sort ([''OPTIONS'']
           @ (if map_of (methods mux) ''GET'' \<noteq> None then [''HEAD''] else [])
           @ map fst (methods mux))"

definition cors_headers :: "('h, 'c) env \<Rightarrow> 'h TrieServeMux \<Rightarrow> response \<Rightarrow> request \<Rightarrow> response" where
  "cors_headers env mux w r =
     (let method = Header_Get (Header r) (CORSRequestMethod env) in
      if method \<noteq> [] then
        (let w1 = Header_Set w (CORSAllowMethods env) (Join (allowed_methods mux) '', '');
             requestOrigin = Header_Get (Header r) (CORSRequestOrigin env);
             w2 = (if requestOrigin \<noteq> [] then
                     (let allowedOrigin =
                            (case map_of (methods mux) method of
                               None \<Rightarrow> []
                             | Some h \<Rightarrow>
                                (case asCORSHandler env h of
                                   None \<Rightarrow> []
                                 | Some cors \<Rightarrow> getAllowedOrigin env cors requestOrigin))
                      in Header_Set w1 (CORSAllowOrigin env)
                           (if allowedOrigin = [] then ''null'' else allowedOrigin))
                   else w1);
             requestHeaders = Header_Get (Header r) (CORSRequestHeaders env)
         in if requestHeaders \<noteq> [] then
              Header_Set w2 (CORSAllowHeaders env)
                (case map_of (methods mux) method of
                   None \<Rightarrow> []
                 | Some h \<Rightarrow>
                    (case asCORSHandler env h of
                       None \<Rightarrow> []
                     | Some cors \<Rightarrow> getAllowedHeaders env cors))
            else w2)
      else w)"

definition methodNotAllowedHandler_ServeHTTP ::
    "('h, 'c) env \<Rightarrow> 'h TrieServeMux \<Rightarrow> response \<Rightarrow> request \<Rightarrow> response" where
  "methodNotAllowedHandler_ServeHTTP env mux w r =
     (let ms = allowed_methods mux;
          w1 = Header_Set w ''Allow'' (Join ms '', '')
      in if Method r = ''OPTIONS'' then
           (let w2 = cors_headers env mux w1 r in
            if acceptJSON env r then
              Write (WriteHeader (Header_Set w2 ''Content-Type'' ''application/json'') 200)
                (JSON_allow ms)
            else
              Write (WriteHeader (Header_Set w2 ''Content-Type'' ''text/plain'') 200)
                (Text (Join ms '', '')))
         else
           (let description = ''only '' @ Join ms '', '' @ '' are allowed'' in
            if acceptJSON env r then
              Write (WriteHeader (Header_Set w1 ''Content-Type'' ''application/json'') 405)
                (JSON_error description
                   (if SnakeCaseHTTPEquivErrors env then ''method_not_allowed''
                    else ''tigertonic.MethodNotAllowed''))
            else
              Write (WriteHeader (Header_Set w1 ''Content-Type'' ''text/plain'') 405)
                (Text description)))"

text \<open>
  \<open>TrieServeMux.ServeHTTP\<close>: the handler that \<open>Handler\<close> returns serves the request
  that \<open>Handler\<close> has rewritten.
\<close>

definition TrieServeMux_ServeHTTP ::
    "('h, 'c) env \<Rightarrow> 'h TrieServeMux \<Rightarrow> response \<Rightarrow> request \<Rightarrow> error + response" where
  "TrieServeMux_ServeHTTP env mux w r =
     (case Handler mux r of
        Inl e \<Rightarrow> Inl e
      | Inr ((Registered h, pat), r') \<Rightarrow> Inr (handler_ServeHTTP env h w r')
      | Inr ((methodNotAllowedHandler n, pat), r') \<Rightarrow>
          Inr (methodNotAllowedHandler_ServeHTTP env n w r')
      | Inr ((NotFoundHandler, pat), r') \<Rightarrow> Inr (NotFoundHandler_ServeHTTP env w r'))"

section \<open>Vocabulary for stating properties\<close>

text \<open>The segments of a pattern or of a request path: \<open>strings.Split(p, "/")[1:]\<close>.\<close>

definition segments :: "string \<Rightarrow> string list" where
  "segments p = tl (Split p CHR ''/'')"

text \<open>The test of \<open>add\<close> for a wildcard segment.\<close>

definition is_wildcard :: "string \<Rightarrow> bool" where
  "is_wildcard p = (HasPrefix p ''{'' \<and> HasSuffix p ''}'')"

text \<open>The node reached from a node along the entries of \<open>paths\<close> named by a list of keys.\<close>

fun node_at :: "'h TrieServeMux \<Rightarrow> string list \<Rightarrow> 'h TrieServeMux option" where
  "node_at mux [] = Some mux"
| "node_at mux (p # ps) =
     (case map_of (paths mux) p of None \<Rightarrow> None | Some c \<Rightarrow> node_at c ps)"

text \<open>A trie built by a list of registrations \<open>(method, pattern, handler)\<close>, first to last.\<close>

definition registers :: "(string \<times> string \<times> 'h) list \<Rightarrow> 'h TrieServeMux" where
  "registers regs = foldl (\<lambda>mux (m, p, h). Handle m p h mux) NewTrieServeMux regs"

text \<open>The method map, the pattern and the wildcard of the node named by a list of keys, if there is one.\<close>

definition methods_at :: "'h TrieServeMux \<Rightarrow> string list \<Rightarrow> (string \<times> 'h) list" where
  "methods_at t qs = (case node_at t qs of None \<Rightarrow> [] | Some n \<Rightarrow> methods n)"

definition pattern_at :: "'h TrieServeMux \<Rightarrow> string list \<Rightarrow> string" where
  "pattern_at t qs = (case node_at t qs of None \<Rightarrow> [] | Some n \<Rightarrow> pattern n)"

definition param_at :: "'h TrieServeMux \<Rightarrow> string list \<Rightarrow> string option" where
  "param_at t qs = (case node_at t qs of None \<Rightarrow> None | Some n \<Rightarrow> param n)"

text \<open>
  A request's segments match a pattern's when there are as many and each of the pattern's
  is a wildcard or the request's own.
\<close>

definition matches :: "string list \<Rightarrow> string list \<Rightarrow> bool" where
  "matches qs ps = list_all2 (\<lambda>q p. is_wildcard q \<or> q = p) qs ps"

text \<open>
  The parameters that the wildcard segments of a pattern collect from the segments of a
  request, set from the last wildcard to the first as the recursion of \<open>find\<close> returns.
\<close>

fun binds :: "string list \<Rightarrow> string list \<Rightarrow> Values option" where
  "binds (q # qs) (p # ps) =
     (if is_wildcard q then Some (set_params q p (binds qs ps)) else binds qs ps)"
| "binds qs ps = None"

text \<open>
  The pairs that \<open>Encode\<close> writes: for each key in sorted order and each of its values,
  the escaped key and the escaped value.
\<close>

definition encoded_pairs :: "Values option \<Rightarrow> (string \<times> string) list" where
  "encoded_pairs params =
     (case params of
        None \<Rightarrow> []
      | Some v \<Rightarrow>
          concat (map (\<lambda>k. map (\<lambda>x. (QueryEscape k, QueryEscape x))
                                (case map_of v k of None \<Rightarrow> [] | Some xs \<Rightarrow> xs))
                      (sort (map fst v))))"

text \<open>An environment and an empty response to run the responder in.\<close>

definition example_env :: "(nat, unit) env" where
  "example_env =
     \<lparr>acceptJSON = (\<lambda>r. False), SnakeCaseHTTPEquivErrors = False,
      CORSRequestOrigin = ''Origin'',
      CORSRequestMethod = ''Access-Control-Request-Method'',
      CORSRequestHeaders = ''Access-Control-Request-Headers'',
      CORSAllowOrigin = ''Access-Control-Allow-Origin'',
      CORSAllowMethods = ''Access-Control-Allow-Methods'',
      CORSAllowHeaders = ''Access-Control-Allow-Headers'',
      asCORSHandler = (\<lambda>h. None), getAllowedOrigin = (\<lambda>c origin. []),
      getAllowedHeaders = (\<lambda>c. []),
      handler_ServeHTTP = (\<lambda>h w r. w), NotFoundHandler_ServeHTTP = (\<lambda>w r. w)\<rparr>"

definition new_response :: response where
  "new_response = \<lparr>ResponseHeader = [], StatusCode = None, Body = []\<rparr>"

section \<open>Splitting and joining\<close>

lemma Split_nonempty: "Split s c \<noteq> []"
  by (induction s) (auto split: list.splits)

lemma Join_Cons: "ys \<noteq> [] \<Longrightarrow> Join (x # ys) sep = x @ sep @ Join ys sep"
  by (cases ys) simp_all

lemma Join_Split: "Join (Split s c) [c] = s"
proof (induction s)
  case Nil
  then show ?case by simp
next
  case (Cons x xs)
  show ?case
  proof (cases "x = c")
    case True
    then show ?thesis using Cons by (simp add: Join_Cons Split_nonempty)
  next
    case False
    obtain y ys where s: "Split xs c = y # ys"
      using Split_nonempty [of xs c] by (cases "Split xs c") auto
    with Cons False show ?thesis by (cases ys) simp_all
  qed
qed

lemma HasPrefix_slash: "HasPrefix p ''/'' \<longleftrightarrow> (\<exists>x. p = CHR ''/'' # x)"
  by (cases p) (auto simp add: HasPrefix_def)

text \<open>Patterns that begin with a slash are told apart by their segments.\<close>

lemma segments_inj:
  assumes "HasPrefix p ''/''" "HasPrefix p' ''/''" "segments p = segments p'"
  shows "p = p'"
proof -
  from assms obtain x x' where p: "p = CHR ''/'' # x" "p' = CHR ''/'' # x'"
    by (auto simp add: HasPrefix_slash)
  with assms(3) have "Split x CHR ''/'' = Split x' CHR ''/''"
    by (simp add: segments_def)
  then have "Join (Split x CHR ''/'') ''/'' = Join (Split x' CHR ''/'') ''/''" by simp
  then show ?thesis using p by (simp add: Join_Split)
qed

section \<open>What a registration changes\<close>

lemma add_idem: "add m qs h pat (add m qs h pat t) = add m qs h pat t"
  by (induction qs arbitrary: t) (simp_all add: update_conv')

lemma methods_at_New: "methods_at NewTrieServeMux qs = []"
  by (cases qs) (simp_all add: methods_at_def NewTrieServeMux_def)

lemma pattern_at_New: "pattern_at NewTrieServeMux qs = []"
  by (cases qs) (simp_all add: pattern_at_def NewTrieServeMux_def)

lemma methods_at_Cons:
  "methods_at t (q # qs) = (case map_of (paths t) q of None \<Rightarrow> [] | Some c \<Rightarrow> methods_at c qs)"
  by (simp add: methods_at_def split: option.splits)

lemma pattern_at_Cons:
  "pattern_at t (q # qs) = (case map_of (paths t) q of None \<Rightarrow> [] | Some c \<Rightarrow> pattern_at c qs)"
  by (simp add: pattern_at_def split: option.splits)

text \<open>A registration writes one method map and one pattern, those of its own node.\<close>

lemma methods_at_add:
  "methods_at (add m qs h pat t) qs' =
     (if qs' = qs then AList.update m h (methods_at t qs) else methods_at t qs')"
proof (induction qs arbitrary: t qs')
  case Nil
  then show ?case by (cases qs') (simp_all add: methods_at_def)
next
  case (Cons q qs)
  show ?case
  proof (cases qs')
    case Nil
    then show ?thesis by (simp add: methods_at_def)
  next
    case (Cons q' qs'')
    then show ?thesis
      by (auto simp add: methods_at_Cons methods_at_New update_conv' Cons.IH split: option.splits)
  qed
qed

lemma pattern_at_add:
  "pattern_at (add m qs h pat t) qs' = (if qs' = qs then pat else pattern_at t qs')"
proof (induction qs arbitrary: t qs')
  case Nil
  then show ?case by (cases qs') (simp_all add: pattern_at_def)
next
  case (Cons q qs)
  show ?case
  proof (cases qs')
    case Nil
    then show ?thesis by (simp add: pattern_at_def)
  next
    case (Cons q' qs'')
    then show ?thesis
      by (auto simp add: pattern_at_Cons pattern_at_New update_conv' Cons.IH split: option.splits)
  qed
qed

lemma param_at_New: "param_at NewTrieServeMux qs = None"
  by (cases qs) (simp_all add: param_at_def NewTrieServeMux_def)

lemma param_at_Cons:
  "param_at t (q # qs) = (case map_of (paths t) q of None \<Rightarrow> None | Some c \<Rightarrow> param_at c qs)"
  by (simp add: param_at_def split: option.splits)

lemma node_at_New: "node_at NewTrieServeMux qs = (if qs = [] then Some NewTrieServeMux else None)"
  by (cases qs) (simp_all add: NewTrieServeMux_def)

lemma node_at_add_iff:
  "node_at (add m qs h pat t) qs' = None \<longleftrightarrow> node_at t qs' = None \<and> \<not> prefix qs' qs"
proof (induction qs arbitrary: t qs')
  case Nil
  then show ?case by (cases qs') simp_all
next
  case (Cons q qs)
  show ?case
  proof (cases qs')
    case Nil
    then show ?thesis by simp
  next
    case (Cons q' qs'')
    then show ?thesis
      by (auto simp add: update_conv' Cons.IH node_at_New split: option.splits)
  qed
qed

lemma param_at_add:
  "param_at (add m qs h pat t) pre =
     (if strict_prefix pre qs \<and> is_wildcard (qs ! length pre) then Some (qs ! length pre)
      else param_at t pre)"
proof (induction qs arbitrary: t pre)
  case Nil
  then show ?case by (cases pre) (simp_all add: param_at_def)
next
  case (Cons q qs)
  show ?case
  proof (cases pre)
    case Nil
    then show ?thesis by (simp add: param_at_def is_wildcard_def)
  next
    case (Cons q' pre')
    then show ?thesis
      by (auto simp add: param_at_Cons update_conv' Cons.IH param_at_New split: option.splits)
  qed
qed

lemma registers_append:
  "registers (xs @ ys) = foldl (\<lambda>mux (m, p, h). Handle m p h mux) (registers xs) ys"
  by (simp add: registers_def)

lemma registers_snoc: "registers (xs @ [(m, p, h)]) = Handle m p h (registers xs)"
  by (simp add: registers_def)

text \<open>What a trie built by registrations holds comes from one of them.\<close>

lemma node_at_registers:
  "node_at (registers regs) qs = None \<longleftrightarrow>
     qs \<noteq> [] \<and> (\<forall>(m, p, h) \<in> set regs. \<not> prefix qs (segments p))"
proof (induction regs rule: rev_induct)
  case Nil
  then show ?case by (simp add: registers_def node_at_New)
next
  case (snoc a regs)
  obtain m p h where a: "a = (m, p, h)" by (cases a) auto
  show ?case using snoc.IH
    unfolding a registers_snoc Handle_def node_at_add_iff segments_def [symmetric]
    by auto
qed

lemma param_at_registers:
  assumes "param_at (registers regs) pre = Some w"
  shows "\<exists>(m, p, h) \<in> set regs.
           strict_prefix pre (segments p) \<and> segments p ! length pre = w \<and> is_wildcard w"
  using assms
proof (induction regs rule: rev_induct)
  case Nil
  then show ?case by (simp add: registers_def param_at_New)
next
  case (snoc a regs)
  obtain m p h where a: "a = (m, p, h)" by (cases a) auto
  show ?case
  proof (cases "strict_prefix pre (segments p) \<and> is_wildcard (segments p ! length pre)")
    case True
    with snoc.prems have w: "w = segments p ! length pre"
      by (simp add: a registers_snoc Handle_def param_at_add segments_def [symmetric])
    with True a show ?thesis by auto
  next
    case False
    with snoc.prems have "param_at (registers regs) pre = Some w"
      by (simp add: a registers_snoc Handle_def param_at_add segments_def [symmetric])
    with snoc.IH show ?thesis by auto
  qed
qed

lemma methods_at_registers:
  assumes "map_of (methods_at (registers regs) qs) m = Some h"
  shows "\<exists>p. (m, p, h) \<in> set regs \<and> segments p = qs"
  using assms
proof (induction regs rule: rev_induct)
  case Nil
  then show ?case by (simp add: registers_def methods_at_New)
next
  case (snoc a regs)
  obtain m' p' h' where a: "a = (m', p', h')" by (cases a) auto
  from snoc show ?case
    unfolding a registers_snoc Handle_def methods_at_add segments_def [symmetric]
    by (auto simp add: update_conv' split: if_splits)
qed

lemma methods_at_registers_empty:
  assumes "\<forall>(m, p, h) \<in> set regs. segments p \<noteq> qs"
  shows "methods_at (registers regs) qs = []"
  using assms
proof (induction regs rule: rev_induct)
  case Nil
  then show ?case by (simp add: registers_def methods_at_New)
next
  case (snoc a regs)
  obtain m' p' h' where a: "a = (m', p', h')" by (cases a) auto
  from snoc show ?case
    unfolding a registers_snoc Handle_def methods_at_add segments_def [symmetric]
    by auto
qed

section \<open>Lookup along entries of \<open>paths\<close>\<close>

text \<open>While the head segment names an entry of \<open>paths\<close>, \<open>find\<close> descends into it.\<close>

lemma find_node_at:
  "node_at t pre = Some n \<Longrightarrow> find_mux t r (pre @ rest) = find_mux n r rest"
  by (induction pre arbitrary: t) (auto split: option.splits)

lemma find_exact:
  assumes "map_of (methods_at t qs) (Method r) = Some h"
  shows "find_mux t r qs = Inr ((None, Registered h, pattern_at t qs), r)"
proof -
  from assms obtain n where n: "node_at t qs = Some n"
    by (cases "node_at t qs") (auto simp add: methods_at_def)
  from find_node_at [OF n, of r "[]"] assms n show ?thesis
    by (simp add: methods_at_def pattern_at_def)
qed

lemma later_keeps:
  assumes "HasPrefix p ''/''"
    and "\<forall>(m', p', h') \<in> set after. HasPrefix p' ''/'' \<and> (m', p') \<noteq> (m, p)"
    and "map_of (methods_at t (segments p)) m = Some h" "pattern_at t (segments p) = p"
  shows "map_of (methods_at (foldl (\<lambda>mux (m, p, h). Handle m p h mux) t after) (segments p)) m = Some h
       \<and> pattern_at (foldl (\<lambda>mux (m, p, h). Handle m p h mux) t after) (segments p) = p"
  using assms(2-)
proof (induction after arbitrary: t)
  case Nil
  then show ?case by simp
next
  case (Cons a after)
  obtain m' p' h' where a: "a = (m', p', h')" by (cases a) auto
  from Cons.prems(1) a have p': "HasPrefix p' ''/''" "(m', p') \<noteq> (m, p)" by auto
  have same: "segments p' = segments p \<Longrightarrow> p' = p"
    using segments_inj [OF p'(1) assms(1)] by simp
  have "map_of (methods_at (Handle m' p' h' t) (segments p)) m = Some h"
    using Cons.prems(2) p'(2) same
    by (auto simp add: Handle_def methods_at_add update_conv' segments_def [symmetric])
  moreover have "pattern_at (Handle m' p' h' t) (segments p) = p"
    using Cons.prems(3) same
    by (auto simp add: Handle_def pattern_at_add segments_def [symmetric])
  ultimately show ?case using Cons.IH [of "Handle m' p' h' t"] Cons.prems(1) a by simp
qed

lemma node_at_append:
  "node_at t (pre @ qs) = (case node_at t pre of None \<Rightarrow> None | Some n \<Rightarrow> node_at n qs)"
  by (induction pre arbitrary: t) (auto split: option.splits)

lemma Split_append: "Split (a @ c # b) c = Split a c @ Split b c"
proof (induction a)
  case Nil
  then show ?case by simp
next
  case (Cons x a)
  then show ?case using Split_nonempty [of a c]
    by (cases "Split a c") auto
qed

lemma segments_append: "segments (ns @ CHR ''/'' # x) = segments ns @ Split x CHR ''/''"
  using Split_nonempty [of ns "CHR ''/''"] by (simp add: segments_def Split_append)

lemma find_fallback:
  assumes "node_at t pre = Some n" "map_of (paths n) s = None" "param n = None"
  shows "find_mux t r (pre @ s # rest) =
     (case map_of (methods n) [] of
        Some h \<Rightarrow> Inr ((None, Registered h, pattern n), r\<lparr>Path := ''/'' @ Join (s # rest) ''/''\<rparr>)
      | None \<Rightarrow> Inr ((None, NotFoundHandler, []), r))"
  using find_node_at [OF assms(1), of r "s # rest"] assms(2,3) by simp

lemma no_child:
  assumes "node_at (registers regs) pre = Some n"
    and "\<forall>(m, p, h) \<in> set regs. \<not> prefix (pre @ [s]) (segments p)"
  shows "map_of (paths n) s = None"
proof -
  have "node_at (registers regs) (pre @ [s]) = None"
    using assms(2) by (simp add: node_at_registers)
  with assms(1) show ?thesis by (simp add: node_at_append split: option.splits)
qed

lemma no_param:
  assumes "node_at (registers regs) pre = Some n"
    and "\<forall>(m, p, h) \<in> set regs.
           strict_prefix pre (segments p) \<longrightarrow> \<not> is_wildcard (segments p ! length pre)"
  shows "param n = None"
proof (cases "param_at (registers regs) pre")
  case None
  with assms(1) show ?thesis by (simp add: param_at_def)
next
  case (Some w)
  from param_at_registers [OF Some] assms(2) show ?thesis by fastforce
qed

lemma latest_registration:
  assumes "regs = before @ (m, p, h) # after"
    and "\<forall>(m', p', h') \<in> set regs. HasPrefix p' ''/''"
    and "\<forall>(m', p', h') \<in> set after. (m', p') \<noteq> (m, p)"
  shows "map_of (methods_at (registers regs) (segments p)) m = Some h
       \<and> pattern_at (registers regs) (segments p) = p"
proof -
  let ?t = "Handle m p h (registers before)"
  have p: "HasPrefix p ''/''" using assms(1,2) by auto
  have 1: "map_of (methods_at ?t (segments p)) m = Some h"
    by (simp add: Handle_def methods_at_add update_conv' segments_def [symmetric])
  have 2: "pattern_at ?t (segments p) = p"
    by (simp add: Handle_def pattern_at_add segments_def [symmetric])
  have 3: "\<forall>(m', p', h') \<in> set after. HasPrefix p' ''/'' \<and> (m', p') \<noteq> (m, p)"
    using assms(1,2,3) by fastforce
  have r: "registers regs = foldl (\<lambda>mux (m, p, h). Handle m p h mux) ?t after"
    using assms(1) registers_append [of "before @ [(m, p, h)]" after]
    by (simp add: registers_snoc)
  from later_keeps [OF p 3 1 2] r show ?thesis by simp
qed

section \<open>Lookup along wildcards\<close>

lemma strict_prefix_append_Cons: "strict_prefix pre (pre @ b # qs)"
  by (simp add: strict_prefix_def)

lemma Trim_not_wildcard: "is_wildcard k \<Longrightarrow> Trim x ''{}'' \<noteq> k"
proof
  assume k: "is_wildcard k" and e: "Trim x ''{}'' = k"
  let ?P = "\<lambda>c. c \<in> set ''{}''"
  from k obtain k' where k': "k = CHR ''{'' # k'"
    by (cases k) (auto simp add: is_wildcard_def HasPrefix_def)
  let ?ys = "rev (dropWhile ?P (rev x))"
  from e k' have d: "dropWhile ?P ?ys = CHR ''{'' # k'" by (simp add: Trim_def)
  then have "dropWhile ?P ?ys \<noteq> []" by simp
  from hd_dropWhile [OF this] d show False by simp
qed

lemma map_of_set_params:
  "map_of (set_params w p params) k =
     (if k = Trim w ''{}'' \<or> k = w then Some [p]
      else map_of (case params of None \<Rightarrow> [] | Some v \<Rightarrow> v) k)"
  by (simp add: set_params_def Values_Set_def update_conv')

lemma binds_lookup:
  assumes "length ps = length qs" and "i < length qs" and "is_wildcard (qs ! i)"
    and "\<forall>j < i. is_wildcard (qs ! j) \<longrightarrow> Trim (qs ! j) ''{}'' \<noteq> Trim (qs ! i) ''{}''"
  shows "\<exists>v. binds qs ps = Some v \<and> map_of v (qs ! i) = Some [ps ! i]
           \<and> map_of v (Trim (qs ! i) ''{}'') = Some [ps ! i]"
  using assms
proof (induction qs ps arbitrary: i rule: binds.induct)
  case (1 q qs p ps)
  show ?case
  proof (cases i)
    case 0
    with "1.prems" show ?thesis by (simp add: map_of_set_params)
  next
    case (Suc i')
    from "1.prems" Suc have len: "length ps = length qs" and i': "i' < length qs"
      and w: "is_wildcard (qs ! i')" by simp_all
    from "1.prems"(4) Suc
    have d: "\<forall>j < i'. is_wildcard (qs ! j) \<longrightarrow> Trim (qs ! j) ''{}'' \<noteq> Trim (qs ! i') ''{}''"
      by auto
    show ?thesis
    proof (cases "is_wildcard q")
      case True
      from "1.IH"(1) [OF True len i' w d] obtain v where v: "binds qs ps = Some v"
        "map_of v (qs ! i') = Some [ps ! i']" "map_of v (Trim (qs ! i') ''{}'') = Some [ps ! i']"
        by blast
      from "1.prems"(4) Suc True have t: "Trim q ''{}'' \<noteq> Trim (qs ! i') ''{}''" by auto
      then have "q \<noteq> qs ! i'" by auto
      moreover have "Trim q ''{}'' \<noteq> qs ! i'" using Trim_not_wildcard [OF w] by simp
      moreover have "Trim (qs ! i') ''{}'' \<noteq> q" using Trim_not_wildcard [OF True] by simp
      ultimately show ?thesis using v t True Suc
        by (auto simp add: map_of_set_params)
    next
      case False
      from "1.IH"(2) [OF False len i' w d] False Suc show ?thesis by simp
    qed
  qed
qed simp_all

lemma find_follow:
  assumes "length ps = length qs"
    and "\<forall>k < length qs.
           if is_wildcard (qs ! k)
           then node_at t (take k qs @ [ps ! k]) = None \<and> param_at t (take k qs) = Some (qs ! k)
           else ps ! k = qs ! k"
    and "map_of (methods_at t qs) (Method r) = Some h"
  shows "find_mux t r ps = Inr ((binds qs ps, Registered h, pattern_at t qs), r)"
  using assms
proof (induction qs arbitrary: ps t)
  case Nil
  then show ?case by (simp add: methods_at_def pattern_at_def)
next
  case (Cons q qs)
  from Cons.prems(1) obtain p ps' where ps: "ps = p # ps'" by (cases ps) auto
  from Cons.prems(3) obtain c where c: "map_of (paths t) q = Some c"
    by (cases "map_of (paths t) q") (auto simp add: methods_at_Cons)
  have len: "length ps' = length qs" using Cons.prems(1) ps by simp
  have rest: "\<forall>k < length qs.
           if is_wildcard (qs ! k)
           then node_at c (take k qs @ [ps' ! k]) = None \<and> param_at c (take k qs) = Some (qs ! k)
           else ps' ! k = qs ! k"
  proof (intro allI impI)
    fix k assume "k < length qs"
    then have "Suc k < length (q # qs)" by simp
    with Cons.prems(2) have
      "if is_wildcard ((q # qs) ! Suc k)
       then node_at t (take (Suc k) (q # qs) @ [ps ! Suc k]) = None
            \<and> param_at t (take (Suc k) (q # qs)) = Some ((q # qs) ! Suc k)
       else ps ! Suc k = (q # qs) ! Suc k" by blast
    then show "if is_wildcard (qs ! k)
           then node_at c (take k qs @ [ps' ! k]) = None \<and> param_at c (take k qs) = Some (qs ! k)
           else ps' ! k = qs ! k"
      using ps c by (auto simp add: param_at_Cons split: if_splits)
  qed
  have m: "map_of (methods_at c qs) (Method r) = Some h"
    using Cons.prems(3) c by (simp add: methods_at_Cons)
  note IH = Cons.IH [OF len rest m]
  have pat: "pattern_at t (q # qs) = pattern_at c qs" using c by (simp add: pattern_at_Cons)
  from Cons.prems(2) have first:
    "if is_wildcard q then node_at t [p] = None \<and> param_at t [] = Some q else p = q"
    using ps by auto
  show ?case
  proof (cases "is_wildcard q")
    case True
    with first have "map_of (paths t) p = None" and "param t = Some q"
      by (simp_all add: param_at_def split: option.splits)
    with c IH pat True show ?thesis unfolding ps by simp
  next
    case False
    with first have "p = q" by simp
    with c IH pat False show ?thesis unfolding ps by simp
  qed
qed

lemma param_at_later:
  assumes "param_at t pre = Some w"
    and "\<forall>(m', p', h') \<in> set after.
           strict_prefix pre (segments p') \<and> is_wildcard (segments p' ! length pre) \<longrightarrow>
           segments p' ! length pre = w"
  shows "param_at (foldl (\<lambda>mux (m, p, h). Handle m p h mux) t after) pre = Some w"
  using assms
proof (induction after arbitrary: t)
  case Nil
  then show ?case by simp
next
  case (Cons a after)
  obtain m' p' h' where a: "a = (m', p', h')" by (cases a) auto
  have "param_at (Handle m' p' h' t) pre = Some w"
    using Cons.prems a
    by (auto simp add: Handle_def param_at_add segments_def [symmetric])
  with Cons.IH [of "Handle m' p' h' t"] Cons.prems(2) a show ?case by simp
qed

lemma param_at_latest:
  assumes "regs = before @ (m, p, h) # after"
    and "k < length (segments p)" and "is_wildcard (segments p ! k)"
    and "\<forall>(m', p', h') \<in> set after.
           strict_prefix (take k (segments p)) (segments p') \<and> is_wildcard (segments p' ! k) \<longrightarrow>
           segments p' ! k = segments p ! k"
  shows "param_at (registers regs) (take k (segments p)) = Some (segments p ! k)"
proof -
  let ?t = "Handle m p h (registers before)"
  have l: "length (take k (segments p)) = k" using assms(2) by simp
  have "take k (segments p) \<noteq> segments p"
  proof
    assume "take k (segments p) = segments p"
    then have "length (take k (segments p)) = length (segments p)" by simp
    with assms(2) show False by simp
  qed
  then have sp: "strict_prefix (take k (segments p)) (segments p)"
    by (simp add: strict_prefix_def take_is_prefix)
  have 1: "param_at ?t (take k (segments p)) = Some (segments p ! k)"
    using sp assms(3) l by (simp add: Handle_def param_at_add segments_def [symmetric])
  have r: "registers regs = foldl (\<lambda>mux (m, p, h). Handle m p h mux) ?t after"
    using assms(1) registers_append [of "before @ [(m, p, h)]" after]
    by (simp add: registers_snoc)
  from param_at_later [OF 1, of after] assms(4) l r show ?thesis by simp
qed

section \<open>The responder\<close>



lemma status_methodNotAllowed:
  "StatusCode (methodNotAllowedHandler_ServeHTTP env n w r) =
     Some (if Method r = ''OPTIONS'' then 200 else 405)"
  by (simp add: methodNotAllowedHandler_ServeHTTP_def Let_def Write_def WriteHeader_def Header_Set_def)


lemma Allow_200:
  assumes "CORSAllowOrigin env \<noteq> ''Allow''" "CORSAllowHeaders env \<noteq> ''Allow''"
  shows "map_of (ResponseHeader (methodNotAllowedHandler_ServeHTTP env n w r)) ''Allow'' =
       Some [Join (allowed_methods n) '', '']"
  using assms
  by (simp add: methodNotAllowedHandler_ServeHTTP_def cors_headers_def Let_def Write_def
      WriteHeader_def Header_Set_def update_conv')




lemma allowed_methods_empty: "methods n = [] \<Longrightarrow> allowed_methods n = [''OPTIONS'']"
  by (simp add: allowed_methods_def)


text \<open>
  A method map that holds \<open>HEAD\<close> beside \<open>GET\<close> lists \<open>HEAD\<close> twice: the list is
  appended to, never searched.
\<close>

lemma Allow_lists_HEAD_twice:
  "allowed_methods (TrieServeMux [(''GET'', 1::nat), (''HEAD'', 2)] None [] ''/a'')
     = [''GET'', ''HEAD'', ''HEAD'', ''OPTIONS'']"
  by (simp add: allowed_methods_def)


section \<open>Exact lookups\<close>

text \<open>
  C1. Take any list of registrations whose patterns begin with a slash (the contract of
  registration), and in it a registration \<open>(m, p, h)\<close> after which the pair \<open>(m, p)\<close> is not
  registered again. A request with method \<open>m\<close> and path \<open>p\<close> is resolved to \<open>h\<close> and \<open>p\<close>,
  with no extracted parameters and the request left as it was; the entry point
  \<open>Handler\<close> returns the same pair. Since \<open>find\<close> tries the entries of \<open>paths\<close> before
  the wildcard, this holds for literal patterns, as claimed, and also when patterns with
  wildcard segments are registered beside them.
\<close>

theorem exact_lookup:
  assumes "regs = before @ (m, p, h) # after"
    and "\<forall>(m', p', h') \<in> set regs. HasPrefix p' ''/''"
    and "\<forall>(m', p', h') \<in> set after. (m', p') \<noteq> (m, p)"
    and "Method r = m" and "Path r = p"
  shows "find_mux (registers regs) r (segments (Path r)) = Inr ((None, Registered h, p), r)
       \<and> Handler (registers regs) r = Inr ((Registered h, p), r\<lparr>RawQuery := RawQuery r @ ''&''\<rparr>)"
proof -
  from latest_registration [OF assms(1,2,3)]
  have "map_of (methods_at (registers regs) (segments p)) m = Some h"
    and "pattern_at (registers regs) (segments p) = p" by simp_all
  with find_exact [of "registers regs" "segments p" r h] assms(4,5)
  have f: "find_mux (registers regs) r (segments (Path r)) = Inr ((None, Registered h, p), r)"
    by simp
  then show ?thesis by (simp add: Handler_def segments_def Encode_def)
qed

text \<open>
  Three registrations, the first pair registered again by the third: the request for
  \<open>GET /a/b\<close> gets the handler of the third.
\<close>

theorem exact_lookup_witness:
  "Handler (registers [(''GET'', ''/a/b'', 1::nat), (''POST'', ''/a/b'', 2), (''GET'', ''/a/b'', 3),
                       (''GET'', ''/a/{x}'', 4)])
     \<lparr>Method = ''GET'', Path = ''/a/b'', RawQuery = ''q=1'', Header = []\<rparr>
   = Inr ((Registered 3, ''/a/b''),
          \<lparr>Method = ''GET'', Path = ''/a/b'', RawQuery = ''q=1&'', Header = []\<rparr>)"
  using exact_lookup [of "[(''GET'', ''/a/b'', 1::nat), (''POST'', ''/a/b'', 2), (''GET'', ''/a/b'', 3),
                          (''GET'', ''/a/{x}'', 4)]"
      "[(''GET'', ''/a/b'', 1::nat), (''POST'', ''/a/b'', 2)]" "''GET''" "''/a/b''" 3
      "[(''GET'', ''/a/{x}'', 4)]"
      "\<lparr>Method = ''GET'', Path = ''/a/b'', RawQuery = ''q=1'', Header = []\<rparr>"]
  by (simp add: HasPrefix_def)

section \<open>Literal entries before the wildcard\<close>

text \<open>
  C2. Let a node, reached from any node \<open>t\<close> along entries of \<open>paths\<close>, have an entry for
  the segment \<open>s\<close> and a wildcard \<open>w\<close> other than \<open>s\<close> with its own entry. A lookup whose
  segment at that depth is \<open>s\<close> is the lookup of the remaining segments in the entry for
  \<open>s\<close>: the entry of the wildcard is not entered and no parameter is recorded for \<open>s\<close>.
\<close>

theorem literal_first:
  assumes "node_at t pre = Some n"
    and "map_of (paths n) s = Some c"
    and "param n = Some w" and "map_of (paths n) w = Some cw" and "w \<noteq> s"
  shows "find_mux t r (pre @ s # rest) = find_mux c r rest"
  using find_node_at [OF assms(1), of r "s # rest"] assms(2) by simp

text \<open>With \<open>/users/me\<close> and \<open>/users/{id}\<close> registered, \<open>/users/me\<close> gets the handler of the first.\<close>

theorem literal_first_witness:
  "find_mux (registers [(''GET'', ''/users/me'', 1::nat), (''GET'', ''/users/{id}'', 2)])
     \<lparr>Method = ''GET'', Path = ''/users/me'', RawQuery = [], Header = []\<rparr> [''users'', ''me'']
   = Inr ((None, Registered 1, ''/users/me''),
          \<lparr>Method = ''GET'', Path = ''/users/me'', RawQuery = [], Header = []\<rparr>)"
  using literal_first [of "registers [(''GET'', ''/users/me'', 1::nat), (''GET'', ''/users/{id}'', 2)]"
      "[''users'']"
      "the (node_at (registers [(''GET'', ''/users/me'', 1::nat), (''GET'', ''/users/{id}'', 2)]) [''users''])"
      "''me''"
      "the (node_at (registers [(''GET'', ''/users/me'', 1::nat), (''GET'', ''/users/{id}'', 2)]) [''users'', ''me''])"
      "''{id}''"
      "the (node_at (registers [(''GET'', ''/users/me'', 1::nat), (''GET'', ''/users/{id}'', 2)]) [''users'', ''{id}''])"
      "\<lparr>Method = ''GET'', Path = ''/users/me'', RawQuery = [], Header = []\<rparr>" "[]"]
  by (simp add: registers_def Handle_def NewTrieServeMux_def HasPrefix_def HasSuffix_def)

section \<open>Namespaces\<close>

text \<open>
  C5. Take a list of registrations whose patterns begin with a slash, and in it a
  namespace \<open>ns\<close> with handler \<open>h\<close> (\<open>HandleNamespace\<close> is \<open>Handle\<close> with the empty
  method) that is not registered again later. Let the path of the request be \<open>ns\<close>, a
  slash and any text \<open>x\<close>, and let the node of the namespace have nothing deeper for it:
  no registration continues \<open>ns\<close> with the first segment of \<open>x\<close>, and none continues it
  with a wildcard. Then lookup returns \<open>h\<close> with the pattern \<open>ns\<close> and no parameters, and
  the path of the request becomes a slash followed by \<open>x\<close>, which is the unconsumed
  segments joined by slashes.
\<close>

theorem namespace_fallback:
  assumes "regs = before @ ([], ns, h) # after"
    and "\<forall>(m', p', h') \<in> set regs. HasPrefix p' ''/''"
    and "\<forall>(m', p', h') \<in> set after. (m', p') \<noteq> ([], ns)"
    and "Path r = ns @ ''/'' @ x"
    and "\<forall>(m, p, h) \<in> set regs.
           \<not> prefix (segments ns @ [hd (Split x CHR ''/'')]) (segments p)"
    and "\<forall>(m, p, h) \<in> set regs.
           strict_prefix (segments ns) (segments p) \<longrightarrow>
           \<not> is_wildcard (segments p ! length (segments ns))"
  shows "HandleNamespace ns h = Handle [] ns h
       \<and> find_mux (registers regs) r (segments (Path r)) =
           Inr ((None, Registered h, ns), r\<lparr>Path := ''/'' @ x\<rparr>)
       \<and> Handler (registers regs) r =
           Inr ((Registered h, ns), r\<lparr>Path := ''/'' @ x, RawQuery := RawQuery r @ ''&''\<rparr>)"
proof -
  let ?t = "registers regs"
  let ?s = "hd (Split x CHR ''/'')" and ?rest = "tl (Split x CHR ''/'')"
  have sx: "Split x CHR ''/'' = ?s # ?rest"
    using Split_nonempty [of x "CHR ''/''"] by simp
  have segs: "segments (Path r) = segments ns @ ?s # ?rest"
    using assms(4) segments_append [of ns x] sx by simp
  from latest_registration [OF assms(1,2,3)]
  have m: "map_of (methods_at ?t (segments ns)) [] = Some h"
    and p: "pattern_at ?t (segments ns) = ns" by simp_all
  from m obtain n where n: "node_at ?t (segments ns) = Some n"
    by (cases "node_at ?t (segments ns)") (auto simp add: methods_at_def)
  from m p n have mn: "map_of (methods n) [] = Some h" and pn: "pattern n = ns"
    by (simp_all add: methods_at_def pattern_at_def)
  have j: "Join (?s # ?rest) ''/'' = x"
    using Join_Split [of x "CHR ''/''"] sx by simp
  from find_fallback [OF n no_child [OF n assms(5)] no_param [OF n assms(6)], of r ?rest]
  have f: "find_mux ?t r (segments (Path r)) = Inr ((None, Registered h, ns), r\<lparr>Path := ''/'' @ x\<rparr>)"
    using mn pn j segs by simp
  have e: "HandleNamespace ns h = Handle [] ns h"
    by (rule ext) (simp add: HandleNamespace_def Handle_def)
  from f e show ?thesis by (simp add: Handler_def segments_def Encode_def)
qed

text \<open>The namespace \<open>/admin\<close> and the path \<open>/admin/reports/2023\<close>.\<close>

theorem namespace_fallback_witness:
  "Handler (registers [(''GET'', ''/users/{id}'', 1::nat), ([], ''/admin'', 2), (''GET'', ''/admin/users'', 3)])
     \<lparr>Method = ''GET'', Path = ''/admin/reports/2023'', RawQuery = [], Header = []\<rparr>
   = Inr ((Registered 2, ''/admin''),
          \<lparr>Method = ''GET'', Path = ''/reports/2023'', RawQuery = ''&'', Header = []\<rparr>)"
  using namespace_fallback [of
      "[(''GET'', ''/users/{id}'', 1::nat), ([], ''/admin'', 2), (''GET'', ''/admin/users'', 3)]"
      "[(''GET'', ''/users/{id}'', 1::nat)]" "''/admin''" 2 "[(''GET'', ''/admin/users'', 3)]"
      "\<lparr>Method = ''GET'', Path = ''/admin/reports/2023'', RawQuery = [], Header = []\<rparr>"
      "''reports/2023''"]
  by (simp add: segments_def HasPrefix_def is_wildcard_def)


section \<open>Not found\<close>

text \<open>
  C6. Let the request's segments be \<open>pre\<close>, then \<open>s\<close>, then any others, where \<open>pre\<close> is
  empty or begins the segments of some registration, so that lookup follows entries of
  \<open>paths\<close> up to there. If no registration continues \<open>pre\<close> with \<open>s\<close>, none continues it
  with a wildcard segment, and no namespace is registered at \<open>pre\<close>, lookup returns the
  not-found handler, no parameters and the empty pattern, and leaves the request as it
  was. With \<open>pre\<close> empty this is the request that matches nothing at any depth.
\<close>

theorem not_found:
  assumes "segments (Path r) = pre @ s # rest"
    and "pre = [] \<or> (\<exists>(m, p, h) \<in> set regs. prefix pre (segments p))"
    and "\<forall>(m, p, h) \<in> set regs. \<not> prefix (pre @ [s]) (segments p)"
    and "\<forall>(m, p, h) \<in> set regs.
           strict_prefix pre (segments p) \<longrightarrow> \<not> is_wildcard (segments p ! length pre)"
    and "\<forall>(m, p, h) \<in> set regs. \<not> (m = [] \<and> segments p = pre)"
  shows "find_mux (registers regs) r (segments (Path r)) = Inr ((None, NotFoundHandler, []), r)
       \<and> Handler (registers regs) r = Inr ((NotFoundHandler, []), r\<lparr>RawQuery := RawQuery r @ ''&''\<rparr>)"
proof -
  let ?t = "registers regs"
  from assms(2) obtain n where n: "node_at ?t pre = Some n"
    using node_at_registers [of regs pre] by (cases "node_at ?t pre") auto
  have "map_of (methods_at ?t pre) [] = None"
  proof (cases "map_of (methods_at ?t pre) []")
    case None
    then show ?thesis .
  next
    case (Some h)
    from methods_at_registers [OF Some] assms(5) show ?thesis by blast
  qed
  with n have m: "map_of (methods n) [] = None" by (simp add: methods_at_def)
  from find_fallback [OF n no_child [OF n assms(3)] no_param [OF n assms(4)], of r rest] m assms(1)
  have "find_mux ?t r (segments (Path r)) = Inr ((None, NotFoundHandler, []), r)" by simp
  then show ?thesis by (simp add: Handler_def segments_def Encode_def)
qed

theorem not_found_witness:
  "Handler (registers [(''GET'', ''/users/{id}'', 1::nat), ([], ''/admin'', 2)])
     \<lparr>Method = ''GET'', Path = ''/posts/7'', RawQuery = [], Header = []\<rparr>
   = Inr ((NotFoundHandler, []),
          \<lparr>Method = ''GET'', Path = ''/posts/7'', RawQuery = ''&'', Header = []\<rparr>)"
  using not_found [of "\<lparr>Method = ''GET'', Path = ''/posts/7'', RawQuery = [], Header = []\<rparr>"
      "[]" "''posts''" "[''7'']" "[(''GET'', ''/users/{id}'', 1::nat), ([], ''/admin'', 2)]"]
  by (simp add: segments_def is_wildcard_def HasPrefix_def HasSuffix_def)

section \<open>A method that is not registered\<close>





section \<open>A path that stops inside a pattern\<close>

text \<open>
  C7. Let the segments of the request's path be a strict prefix of the segments of some
  registration and the segments of none. Then lookup ends on the node they name, whose
  method map is empty, and returns the responder bound to it, with no parameters and the
  empty pattern: not the not-found handler. The responder's list of methods is \<open>OPTIONS\<close>
  alone, and the multiplexer answers with what the responder writes: status 200 to
  \<open>OPTIONS\<close> and 405 to any other method, with the \<open>Allow\<close> header \<open>OPTIONS\<close>, provided
  the names configured for the CORS allow-origin and allow-headers headers are not
  \<open>Allow\<close> itself.
\<close>

theorem prefix_of_pattern:
  assumes "segments (Path r) = ps"
    and "\<exists>(m, p, h) \<in> set regs. strict_prefix ps (segments p)"
    and "\<forall>(m, p, h) \<in> set regs. segments p \<noteq> ps"
    and "CORSAllowOrigin env \<noteq> ''Allow''" and "CORSAllowHeaders env \<noteq> ''Allow''"
    and "r' = r\<lparr>RawQuery := RawQuery r @ ''&''\<rparr>"
  shows "\<exists>n. node_at (registers regs) ps = Some n \<and> methods n = []
       \<and> find_mux (registers regs) r ps = Inr ((None, methodNotAllowedHandler n, []), r)
       \<and> Handler (registers regs) r = Inr ((methodNotAllowedHandler n, []), r')
       \<and> allowed_methods n = [''OPTIONS'']
       \<and> TrieServeMux_ServeHTTP env (registers regs) w r =
           Inr (methodNotAllowedHandler_ServeHTTP env n w r')
       \<and> StatusCode (methodNotAllowedHandler_ServeHTTP env n w r') =
           Some (if Method r = ''OPTIONS'' then 200 else 405)
       \<and> map_of (ResponseHeader (methodNotAllowedHandler_ServeHTTP env n w r')) ''Allow'' =
           Some [''OPTIONS'']"
proof -
  let ?t = "registers regs"
  from assms(2) have "\<exists>(m, p, h) \<in> set regs. prefix ps (segments p)"
    by (auto simp add: strict_prefix_def)
  then obtain n where n: "node_at ?t ps = Some n"
    using node_at_registers [of regs ps] by (cases "node_at ?t ps") auto
  from methods_at_registers_empty [OF assms(3)] n have m: "methods n = []"
    by (simp add: methods_at_def)
  from find_node_at [OF n, of r "[]"] m
  have f: "find_mux ?t r ps = Inr ((None, methodNotAllowedHandler n, []), r)" by simp
  with assms(1,6) have h: "Handler ?t r = Inr ((methodNotAllowedHandler n, []), r')"
    by (simp add: Handler_def segments_def Encode_def)
  then have s: "TrieServeMux_ServeHTTP env ?t w r =
      Inr (methodNotAllowedHandler_ServeHTTP env n w r')"
    by (simp add: TrieServeMux_ServeHTTP_def)
  have a: "allowed_methods n = [''OPTIONS'']" by (rule allowed_methods_empty [OF m])
  have c: "StatusCode (methodNotAllowedHandler_ServeHTTP env n w r') =
      Some (if Method r = ''OPTIONS'' then 200 else 405)"
    using status_methodNotAllowed [of env n w r'] assms(6) by simp
  have l: "map_of (ResponseHeader (methodNotAllowedHandler_ServeHTTP env n w r')) ''Allow'' =
      Some [''OPTIONS'']"
    using Allow_200 [OF assms(4,5), of n w r'] a by simp
  from n m f h a s c l show ?thesis by blast
qed

text \<open>With \<open>/users/{id}/posts\<close> registered, \<open>GET /users\<close> is answered 405 with \<open>Allow: OPTIONS\<close>.\<close>

theorem prefix_of_pattern_witness:
  "TrieServeMux_ServeHTTP example_env (registers [(''GET'', ''/users/{id}/posts'', 1::nat)])
     new_response \<lparr>Method = ''GET'', Path = ''/users'', RawQuery = [], Header = []\<rparr>
   = Inr \<lparr>ResponseHeader = [(''Allow'', [''OPTIONS'']), (''Content-Type'', [''text/plain''])],
          StatusCode = Some 405, Body = [Text ''only OPTIONS are allowed'']\<rparr>"
proof -
  let ?regs = "[(''GET'', ''/users/{id}/posts'', 1::nat)]"
  let ?r = "\<lparr>Method = ''GET'', Path = ''/users'', RawQuery = [], Header = []\<rparr>"
  have 1: "segments (Path ?r) = [''users'']" by (simp add: segments_def)
  have 2: "\<exists>(m, p, h) \<in> set ?regs. strict_prefix [''users''] (segments p)"
    by (simp add: segments_def)
  have 3: "\<forall>(m, p, h) \<in> set ?regs. segments p \<noteq> [''users'']" by (simp add: segments_def)
  have 4: "CORSAllowOrigin example_env \<noteq> ''Allow''"
    and 5: "CORSAllowHeaders example_env \<noteq> ''Allow''" by (simp_all add: example_env_def)
  have 6: "?r\<lparr>RawQuery := ''&''\<rparr> = ?r\<lparr>RawQuery := RawQuery ?r @ ''&''\<rparr>" by simp
  from prefix_of_pattern [OF 1 2 3 4 5 6, of new_response] obtain n where
    n: "methods n = []"
    and s: "TrieServeMux_ServeHTTP example_env (registers ?regs) new_response ?r =
      Inr (methodNotAllowedHandler_ServeHTTP example_env n new_response (?r\<lparr>RawQuery := ''&''\<rparr>))"
    by blast
  from n show ?thesis unfolding s
    by (simp add: methodNotAllowedHandler_ServeHTTP_def allowed_methods_def example_env_def
        new_response_def Let_def Header_Set_def WriteHeader_def Write_def)
qed

section \<open>Wildcard parameters\<close>

text \<open>
  C3, amended. Take a list of registrations whose patterns begin with a slash, and in it a
  registration \<open>(m, p, h)\<close> whose pair is not registered again. Let a request with method
  \<open>m\<close> have as many segments as \<open>p\<close>, the same as those of \<open>p\<close> wherever \<open>p\<close> has no
  wildcard. At each wildcard position \<open>k\<close> of \<open>p\<close>, let no registration continue the first
  \<open>k\<close> segments of \<open>p\<close> with the text of the request's segment (the node then has no entry
  of that name, neither a literal one nor a wildcard token), and let no later registration
  continue them with another wildcard. Then lookup returns \<open>h\<close> and \<open>p\<close> and leaves the
  request as it was, and \<open>Handler\<close> appends the encoded parameters to the query. For each
  wildcard position \<open>i\<close> whose name, braces trimmed, is the name of no wildcard before it
  in \<open>p\<close>, the parameters map the token and the trimmed token to the request's segment at
  \<open>i\<close>.
\<close>

theorem wildcard_parameters:
  assumes "regs = before @ (m, p, h) # after"
    and "\<forall>(m', p', h') \<in> set regs. HasPrefix p' ''/''"
    and "\<forall>(m', p', h') \<in> set after. (m', p') \<noteq> (m, p)"
    and "Method r = m" and "segments (Path r) = ps" and "length ps = length (segments p)"
    and "\<forall>k < length ps. \<not> is_wildcard (segments p ! k) \<longrightarrow> ps ! k = segments p ! k"
    and "\<forall>k < length ps. is_wildcard (segments p ! k) \<longrightarrow>
           (\<forall>(m', p', h') \<in> set regs. \<not> prefix (take k (segments p) @ [ps ! k]) (segments p'))"
    and "\<forall>k < length ps. is_wildcard (segments p ! k) \<longrightarrow>
           (\<forall>(m', p', h') \<in> set after.
              strict_prefix (take k (segments p)) (segments p') \<and> is_wildcard (segments p' ! k) \<longrightarrow>
              segments p' ! k = segments p ! k)"
    and "i < length ps" and "is_wildcard (segments p ! i)"
    and "\<forall>j < i. is_wildcard (segments p ! j) \<longrightarrow>
           Trim (segments p ! j) ''{}'' \<noteq> Trim (segments p ! i) ''{}''"
  shows "\<exists>params. find_mux (registers regs) r ps = Inr ((Some params, Registered h, p), r)
           \<and> Handler (registers regs) r =
               Inr ((Registered h, p), r\<lparr>RawQuery := RawQuery r @ ''&'' @ Values_Encode params\<rparr>)
           \<and> map_of params (segments p ! i) = Some [ps ! i]
           \<and> map_of params (Trim (segments p ! i) ''{}'') = Some [ps ! i]"
proof -
  let ?t = "registers regs" and ?qs = "segments p"
  from latest_registration [OF assms(1,2,3)] assms(4)
  have mh: "map_of (methods_at ?t ?qs) (Method r) = Some h" and pt: "pattern_at ?t ?qs = p"
    by simp_all
  have follow: "\<forall>k < length ?qs.
           if is_wildcard (?qs ! k)
           then node_at ?t (take k ?qs @ [ps ! k]) = None \<and> param_at ?t (take k ?qs) = Some (?qs ! k)
           else ps ! k = ?qs ! k"
  proof (intro allI impI)
    fix k assume k: "k < length ?qs"
    show "if is_wildcard (?qs ! k)
           then node_at ?t (take k ?qs @ [ps ! k]) = None \<and> param_at ?t (take k ?qs) = Some (?qs ! k)
           else ps ! k = ?qs ! k"
    proof (cases "is_wildcard (?qs ! k)")
      case True
      from assms(8) k True assms(6)
      have "\<forall>(m', p', h') \<in> set regs. \<not> prefix (take k ?qs @ [ps ! k]) (segments p')" by simp
      then have 1: "node_at ?t (take k ?qs @ [ps ! k]) = None"
        by (simp add: node_at_registers)
      from assms(9) k True assms(6)
      have "\<forall>(m', p', h') \<in> set after.
              strict_prefix (take k ?qs) (segments p') \<and> is_wildcard (segments p' ! k) \<longrightarrow>
              segments p' ! k = ?qs ! k" by simp
      from param_at_latest [OF assms(1) k True this] 1 True show ?thesis by simp
    next
      case False
      with assms(7) k assms(6) show ?thesis by simp
    qed
  qed
  from find_follow [OF assms(6) follow mh] pt
  have f: "find_mux ?t r ps = Inr ((binds ?qs ps, Registered h, p), r)" by simp
  from binds_lookup [OF assms(6), of i] assms(6,10,11,12) obtain v where
    v: "binds ?qs ps = Some v" "map_of v (?qs ! i) = Some [ps ! i]"
    "map_of v (Trim (?qs ! i) ''{}'') = Some [ps ! i]" by auto
  from f v(1) assms(5) have "Handler ?t r =
      Inr ((Registered h, p), r\<lparr>RawQuery := RawQuery r @ ''&'' @ Values_Encode v\<rparr>)"
    by (simp add: Handler_def segments_def Encode_def)
  with f v show ?thesis by simp
qed

text \<open>The pattern \<open>/users/{id}\<close> beside \<open>/users/me\<close>, and the request \<open>/users/42\<close>.\<close>

theorem wildcard_parameters_witness:
  "\<exists>params. find_mux (registers [(''GET'', ''/users/{id}'', 1::nat), (''GET'', ''/users/me'', 2)])
       \<lparr>Method = ''GET'', Path = ''/users/42'', RawQuery = ''a=b'', Header = []\<rparr> [''users'', ''42'']
     = Inr ((Some params, Registered 1, ''/users/{id}''),
            \<lparr>Method = ''GET'', Path = ''/users/42'', RawQuery = ''a=b'', Header = []\<rparr>)
     \<and> Handler (registers [(''GET'', ''/users/{id}'', 1::nat), (''GET'', ''/users/me'', 2)])
       \<lparr>Method = ''GET'', Path = ''/users/42'', RawQuery = ''a=b'', Header = []\<rparr>
     = Inr ((Registered 1, ''/users/{id}''),
            \<lparr>Method = ''GET'', Path = ''/users/42'',
               RawQuery = ''a=b&'' @ Values_Encode params, Header = []\<rparr>)
     \<and> map_of params ''{id}'' = Some [''42''] \<and> map_of params ''id'' = Some [''42'']"
proof -
  let ?regs = "[(''GET'', ''/users/{id}'', 1::nat), (''GET'', ''/users/me'', 2)]"
  let ?r = "\<lparr>Method = ''GET'', Path = ''/users/42'', RawQuery = ''a=b'', Header = []\<rparr>"
  let ?ps = "[''users'', ''42'']"
  have s: "segments ''/users/{id}'' = [''users'', ''{id}'']"
    "segments ''/users/me'' = [''users'', ''me'']" "segments ''/users/42'' = ?ps"
    by (simp_all add: segments_def)
  have w: "is_wildcard ''{id}''" "\<not> is_wildcard ''users''"
    by (simp_all add: is_wildcard_def HasPrefix_def HasSuffix_def)
  have 1: "?regs = [] @ (''GET'', ''/users/{id}'', 1) # [(''GET'', ''/users/me'', 2)]" by simp
  have 2: "\<forall>(m', p', h') \<in> set ?regs. HasPrefix p' ''/''" by (simp add: HasPrefix_def)
  have 3: "\<forall>(m', p', h') \<in> set [(''GET'', ''/users/me'', 2::nat)]. (m', p') \<noteq> (''GET'', ''/users/{id}'')"
    by simp
  have 4: "Method ?r = ''GET''" and 5: "segments (Path ?r) = ?ps"
    and 6: "length ?ps = length (segments ''/users/{id}'')" by (simp_all add: s)
  have 7: "\<forall>k < length ?ps. \<not> is_wildcard (segments ''/users/{id}'' ! k) \<longrightarrow>
      ?ps ! k = segments ''/users/{id}'' ! k"
    by (simp add: s w All_less_Suc)
  have 8: "\<forall>k < length ?ps. is_wildcard (segments ''/users/{id}'' ! k) \<longrightarrow>
      (\<forall>(m', p', h') \<in> set ?regs.
         \<not> prefix (take k (segments ''/users/{id}'') @ [?ps ! k]) (segments p'))"
    by (simp add: s w All_less_Suc)
  have 9: "\<forall>k < length ?ps. is_wildcard (segments ''/users/{id}'' ! k) \<longrightarrow>
      (\<forall>(m', p', h') \<in> set [(''GET'', ''/users/me'', 2::nat)].
         strict_prefix (take k (segments ''/users/{id}'')) (segments p')
           \<and> is_wildcard (segments p' ! k) \<longrightarrow>
         segments p' ! k = segments ''/users/{id}'' ! k)"
    by (simp add: s w All_less_Suc is_wildcard_def HasPrefix_def)
  have 10: "1 < length ?ps" and 11: "is_wildcard (segments ''/users/{id}'' ! 1)"
    by (simp_all add: s w)
  have 12: "\<forall>j < 1. is_wildcard (segments ''/users/{id}'' ! j) \<longrightarrow>
      Trim (segments ''/users/{id}'' ! j) ''{}'' \<noteq> Trim (segments ''/users/{id}'' ! 1) ''{}''"
    by (simp add: s w)
  from wildcard_parameters [OF 1 2 3 4 5 6 7 8 9 10 11 12] show ?thesis
    by (simp add: s Trim_def del: find_mux.simps)
qed

text \<open>
  The claim as written fails when an entry of \<open>paths\<close> takes the request away from the
  wildcard: \<open>/users/me/posts\<close> matches the registered \<open>/users/{id}/posts\<close>, and with
  \<open>/users/me\<close> registered as well, lookup enters the node of \<open>me\<close>, finds nothing for
  \<open>posts\<close> there and does not go back.
\<close>

theorem wildcard_counterexample:
  "matches (segments ''/users/{id}/posts'') (segments ''/users/me/posts'')
   \<and> Handler (registers [(''GET'', ''/users/{id}/posts'', 1::nat), (''GET'', ''/users/me'', 2)])
        \<lparr>Method = ''GET'', Path = ''/users/me/posts'', RawQuery = [], Header = []\<rparr>
      = Inr ((NotFoundHandler, []),
             \<lparr>Method = ''GET'', Path = ''/users/me/posts'', RawQuery = ''&'', Header = []\<rparr>)"
  by (simp add: matches_def segments_def is_wildcard_def HasPrefix_def HasSuffix_def Handler_def
      registers_def Handle_def NewTrieServeMux_def Encode_def)


section \<open>Two wildcards at one node\<close>

text \<open>
  C8. A node holds one wildcard. Register \<open>p1\<close> and then \<open>p2\<close>, which continue the same
  segments \<open>pre\<close> with the wildcards \<open>a\<close> and \<open>b\<close>, on any trie. The wildcard of the node of
  \<open>pre\<close> is then \<open>b\<close>. The subtree of \<open>a\<close> is still an entry of \<open>paths\<close>, and the handler
  of \<open>p2\<close> is in the subtree of \<open>b\<close>. A lookup that reaches the node with a segment \<open>s\<close>
  that names no entry there is the lookup of the remaining segments in the subtree of
  \<open>b\<close>, with \<open>s\<close> recorded under \<open>b\<close>.
\<close>

theorem later_wildcard_wins:
  assumes "is_wildcard a" and "is_wildcard b" and "a \<noteq> b"
    and "segments p1 = pre @ a # qs1" and "segments p2 = pre @ b # qs2"
    and "t = Handle m2 p2 h2 (Handle m1 p1 h1 t0)"
    and "node_at t (pre @ [s]) = None"
  shows "param_at t pre = Some b
       \<and> node_at t (pre @ [a]) \<noteq> None
       \<and> map_of (methods_at t (pre @ b # qs2)) m2 = Some h2
       \<and> find_mux t r (pre @ s # rest) =
           (case node_at t (pre @ [b]) of
              None \<Rightarrow> Inl NilPointerDereference
            | Some cb \<Rightarrow>
               (case find_mux cb r rest of
                  Inl e \<Rightarrow> Inl e
                | Inr ((params, h, pat), r') \<Rightarrow> Inr ((Some (set_params b s params), h, pat), r')))"
proof -
  let ?t1 = "add m1 (pre @ a # qs1) h1 p1 t0"
  have t: "t = add m2 (pre @ b # qs2) h2 p2 ?t1"
    using assms(4,5,6) by (simp add: Handle_def segments_def)
  have 1: "param_at t pre = Some b"
    using assms(2) by (simp add: t param_at_add strict_prefix_append_Cons)
  have "node_at ?t1 (pre @ [a]) \<noteq> None"
    using node_at_add_iff [of m1 "pre @ a # qs1" h1 p1 t0 "pre @ [a]"] by simp
  then have 2: "node_at t (pre @ [a]) \<noteq> None"
    using node_at_add_iff [of m2 "pre @ b # qs2" h2 p2 ?t1 "pre @ [a]"] t by simp
  have 3: "map_of (methods_at t (pre @ b # qs2)) m2 = Some h2"
    by (simp add: t methods_at_add update_conv')
  have "node_at t pre \<noteq> None"
    using node_at_add_iff [of m2 "pre @ b # qs2" h2 p2 ?t1 pre] t by simp
  then obtain n where n: "node_at t pre = Some n" by auto
  from n 1 have pn: "param n = Some b" by (simp add: param_at_def)
  from n assms(7) have sn: "map_of (paths n) s = None"
    by (simp add: node_at_append split: option.splits)
  have bn: "node_at t (pre @ [b]) = map_of (paths n) b"
    using n by (simp add: node_at_append split: option.splits)
  have 4: "find_mux t r (pre @ s # rest) =
           (case node_at t (pre @ [b]) of
              None \<Rightarrow> Inl NilPointerDereference
            | Some cb \<Rightarrow>
               (case find_mux cb r rest of
                  Inl e \<Rightarrow> Inl e
                | Inr ((params, h, pat), r') \<Rightarrow> Inr ((Some (set_params b s params), h, pat), r')))"
    using find_node_at [OF n, of r "s # rest"] pn sn bn by simp
  from 1 2 3 4 show ?thesis by blast
qed

text \<open>
  After \<open>/{a}/x\<close> and \<open>/{b}/y\<close>, the request \<open>/7/x\<close> is looked up under \<open>{b}\<close>, where
  there is no \<open>x\<close>.
\<close>

theorem later_wildcard_wins_witness:
  "find_mux (Handle ''GET'' ''/{b}/y'' 2 (Handle ''GET'' ''/{a}/x'' (1::nat) NewTrieServeMux))
     \<lparr>Method = ''GET'', Path = ''/7/x'', RawQuery = [], Header = []\<rparr> [''7'', ''x'']
   = Inr ((Some [(''{b}'', [''7'']), (''b'', [''7''])], NotFoundHandler, []),
          \<lparr>Method = ''GET'', Path = ''/7/x'', RawQuery = [], Header = []\<rparr>)"
  using later_wildcard_wins [of "''{a}''" "''{b}''" "''/{a}/x''" "[]" "[''x'']" "''/{b}/y''" "[''y'']"
      "Handle ''GET'' ''/{b}/y'' 2 (Handle ''GET'' ''/{a}/x'' (1::nat) NewTrieServeMux)"
      "''GET''" 2 "''GET''" 1 NewTrieServeMux "''7''"
      "\<lparr>Method = ''GET'', Path = ''/7/x'', RawQuery = [], Header = []\<rparr>" "[''x'']"]
  by (simp add: is_wildcard_def HasPrefix_def HasSuffix_def segments_def Handle_def
      NewTrieServeMux_def set_params_def Values_Set_def Trim_def)


section \<open>The query string\<close>

text \<open>\<open>find\<close> returns on every trie that registrations have built, and leaves the query alone.\<close>

lemma find_mux_RawQuery:
  "find_mux t r ps = Inr (res, r') \<Longrightarrow> RawQuery r' = RawQuery r"
proof (induction ps arbitrary: t res r')
  case Nil
  then show ?case by (auto split: option.splits)
next
  case (Cons p ps)
  from Cons.prems show ?case
    by (auto split: option.splits sum.splits prod.splits dest: Cons.IH)
qed

lemma strict_prefix_next: "strict_prefix pre qs \<Longrightarrow> prefix (pre @ [qs ! length pre]) qs"
proof -
  assume "strict_prefix pre qs"
  then obtain zs where zs: "qs = pre @ zs" "zs \<noteq> []"
    by (auto simp add: strict_prefix_def prefix_def)
  then show ?thesis by (cases zs) simp_all
qed

lemma registers_wildcard_entry:
  assumes "param_at (registers regs) pre = Some w"
  shows "node_at (registers regs) (pre @ [w]) \<noteq> None"
proof -
  from param_at_registers [OF assms] obtain m p h where
    "(m, p, h) \<in> set regs" "strict_prefix pre (segments p)" "segments p ! length pre = w"
    by auto
  with strict_prefix_next [of pre "segments p"]
  have "\<exists>(m, p, h) \<in> set regs. prefix (pre @ [w]) (segments p)" by blast
  then show ?thesis using node_at_registers [of regs "pre @ [w]"] by blast
qed

lemma find_mux_returns:
  assumes "\<forall>pre w. param_at t pre = Some w \<longrightarrow> node_at t (pre @ [w]) \<noteq> None"
  shows "\<exists>res r'. find_mux t r ps = Inr (res, r')"
  using assms
proof (induction ps arbitrary: t)
  case Nil
  then show ?case by (simp split: option.splits)
next
  case (Cons p ps)
  have sub: "\<And>q c. map_of (paths t) q = Some c \<Longrightarrow>
      \<forall>pre w. param_at c pre = Some w \<longrightarrow> node_at c (pre @ [w]) \<noteq> None"
  proof (intro allI impI)
    fix q c pre w
    assume c: "map_of (paths t) q = Some c" and "param_at c pre = Some w"
    then have "param_at t (q # pre) = Some w" by (simp add: param_at_Cons)
    with Cons.prems have "node_at t ((q # pre) @ [w]) \<noteq> None" by blast
    with c show "node_at c (pre @ [w]) \<noteq> None" by simp
  qed
  show ?case
  proof (cases "map_of (paths t) p")
    case (Some c)
    with Cons.IH [OF sub [OF Some]] show ?thesis by simp
  next
    case None
    show ?thesis
    proof (cases "param t")
      case pn: None
      with None show ?thesis by (simp split: option.splits)
    next
      case (Some w)
      then have "param_at t [] = Some w" by (simp add: param_at_def)
      with Cons.prems have "node_at t ([] @ [w]) \<noteq> None" by blast
      then obtain c where c: "map_of (paths t) w = Some c"
        by (cases "map_of (paths t) w") auto
      from Cons.IH [OF sub [OF c]] obtain res r' where "find_mux c r ps = Inr (res, r')" by blast
      with None Some c show ?thesis by (cases res) auto
    qed
  qed
qed

text \<open>What \<open>Encode\<close> writes is read back as the pairs it encoded.\<close>

lemma query_pairs_append:
  "query_pairs (a @ ''&'' @ b) = query_pairs a @ query_pairs b"
  by (simp add: query_pairs_def Split_append)

lemma hexdigit_plain: "hexdigit n \<noteq> CHR ''&'' \<and> hexdigit n \<noteq> CHR ''=''"
proof -
  have "hexdigit n \<in> set ''0123456789ABCDEF''"
    unfolding hexdigit_def by (rule nth_mem) simp
  then show ?thesis by auto
qed

lemma QueryEscape_plain: "CHR ''&'' \<notin> set (QueryEscape s) \<and> CHR ''='' \<notin> set (QueryEscape s)"
proof (induction s)
  case Nil
  then show ?case by simp
next
  case (Cons c s)
  have "unreserved c \<Longrightarrow> c \<noteq> CHR ''&'' \<and> c \<noteq> CHR ''=''"
    by (auto simp add: unreserved_def)
  with Cons hexdigit_plain [of "of_char c div 16"] hexdigit_plain [of "of_char c mod 16"]
  show ?case by auto
qed

lemma Split_plain: "c \<notin> set s \<Longrightarrow> Split s c = [s]"
  by (induction s) auto

lemma Split_Join:
  assumes "\<forall>x \<in> set xs. c \<notin> set x" and "xs \<noteq> []"
  shows "Split (Join xs [c]) c = xs"
  using assms
proof (induction xs)
  case Nil
  then show ?case by simp
next
  case (Cons x xs)
  show ?case
  proof (cases xs)
    case Nil
    with Cons.prems show ?thesis by (simp add: Split_plain)
  next
    case (Cons y ys)
    with Cons.prems Cons.IH have "Split (Join xs [c]) c = xs" by simp
    with Cons Cons.prems show ?thesis
      using Split_append [of x c "Join xs [c]"] by (simp add: Split_plain)
  qed
qed

lemma cut_eq_plain: "CHR ''='' \<notin> set k \<Longrightarrow> cut_eq (k @ CHR ''='' # v) = (k, v)"
  by (induction k) auto

lemma query_pairs_Join:
  assumes "\<forall>x \<in> set xs. CHR ''&'' \<notin> set x \<and> x \<noteq> []"
  shows "query_pairs (Join xs ''&'') = map cut_eq xs"
proof (cases xs)
  case Nil
  then show ?thesis by (simp add: query_pairs_def)
next
  case (Cons y ys)
  with assms have "Split (Join xs ''&'') CHR ''&'' = xs"
    using Split_Join [of xs "CHR ''&''"] by auto
  moreover have "filter (\<lambda>s. s \<noteq> []) xs = xs" using assms by (simp add: filter_id_conv)
  ultimately show ?thesis by (simp add: query_pairs_def)
qed

lemma query_pairs_Encode: "query_pairs (Encode params) = encoded_pairs params"
proof (cases params)
  case None
  then show ?thesis by (simp add: Encode_def encoded_pairs_def query_pairs_def)
next
  case (Some v)
  let ?pieces = "concat (map (\<lambda>k. map (\<lambda>x. QueryEscape k @ ''='' @ QueryEscape x)
                                (case map_of v k of None \<Rightarrow> [] | Some xs \<Rightarrow> xs))
                       (sort (map fst v)))"
  have "\<forall>x \<in> set ?pieces. CHR ''&'' \<notin> set x \<and> x \<noteq> []"
    using QueryEscape_plain by auto
  from query_pairs_Join [OF this]
  have "query_pairs (Values_Encode v) = map cut_eq ?pieces" by (simp add: Values_Encode_def)
  also have "\<dots> = encoded_pairs (Some v)"
    by (simp add: encoded_pairs_def map_concat comp_def cut_eq_plain QueryEscape_plain)
  finally show ?thesis using Some by (simp add: Encode_def)
qed

text \<open>
  C10. For every trie built by registrations and every request, \<open>find\<close> returns, and
  \<open>Handler\<close> sets the raw query to the old raw query, an ampersand and the encoded
  parameters of \<open>find\<close>. Read as \<open>url.ParseQuery\<close> cuts it, the new query is every pair
  of the old one, in order and as it was, followed by the pairs of the extracted
  parameters.
\<close>

theorem Handler_query:
  "\<exists>params h pat r1.
     find_mux (registers regs) r (segments (Path r)) = Inr ((params, h, pat), r1)
     \<and> Handler (registers regs) r =
         Inr ((h, pat), r1\<lparr>RawQuery := RawQuery r @ ''&'' @ Encode params\<rparr>)
     \<and> query_pairs (RawQuery r @ ''&'' @ Encode params) =
         query_pairs (RawQuery r) @ encoded_pairs params"
proof -
  have "\<forall>pre w. param_at (registers regs) pre = Some w \<longrightarrow>
      node_at (registers regs) (pre @ [w]) \<noteq> None"
    using registers_wildcard_entry by blast
  from find_mux_returns [OF this, of r "segments (Path r)"] obtain params h pat r1 where
    f: "find_mux (registers regs) r (segments (Path r)) = Inr ((params, h, pat), r1)"
    by (metis prod_cases3)
  from find_mux_RawQuery [OF f] have q: "RawQuery r1 = RawQuery r" .
  from f q have "Handler (registers regs) r =
      Inr ((h, pat), r1\<lparr>RawQuery := RawQuery r @ ''&'' @ Encode params\<rparr>)"
    by (simp add: Handler_def segments_def)
  with f show ?thesis
    using query_pairs_append [of "RawQuery r" "Encode params"] query_pairs_Encode [of params]
    by auto
qed

text \<open>
  A query that already has \<open>id\<close> keeps it first: \<open>id=7\<close> stays in front of the \<open>id\<close> taken
  from the path.
\<close>

lemma Handler_query_example:
  "Handler (registers [(''GET'', ''/users/{id}'', 1::nat)])
     \<lparr>Method = ''GET'', Path = ''/users/a b'', RawQuery = ''id=7&x=1'', Header = []\<rparr>
   = Inr ((Registered 1, ''/users/{id}''),
          \<lparr>Method = ''GET'', Path = ''/users/a b'', RawQuery = ''id=7&x=1&id=a+b&%7Bid%7D=a+b'',
             Header = []\<rparr>)
   \<and> query_pairs ''id=7&x=1&id=a+b&%7Bid%7D=a+b''
      = [(''id'', ''7''), (''x'', ''1''), (''id'', ''a+b''), (''%7Bid%7D'', ''a+b'')]"
  by (simp add: Handler_def registers_def Handle_def NewTrieServeMux_def HasPrefix_def HasSuffix_def
      set_params_def Values_Set_def Trim_def Encode_def Values_Encode_def unreserved_def
      hexdigit_def query_pairs_def)


section \<open>Registering twice\<close>

text \<open>
  C9. Registering the same method, pattern and handler a second time leaves the trie as
  the first registration made it, so every lookup, for every request and every list of
  segments, returns what it returned after one registration, and so does \<open>Handler\<close>.
\<close>

theorem Handle_twice:
  "Handle m p h (Handle m p h t) = Handle m p h t
   \<and> find_mux (Handle m p h (Handle m p h t)) r ps = find_mux (Handle m p h t) r ps
   \<and> Handler (Handle m p h (Handle m p h t)) r = Handler (Handle m p h t) r"
  by (simp add: Handle_def add_idem)

end
